theory Spec2Isabelle
  imports Main "HOL-Library.Multiset"
begin

section \<open>Data model\<close>

text \<open>
  The CLI (\<^verbatim>\<open>packages/cli/src/App.tsx\<close>) works on values of the engine's types
  \<^verbatim>\<open>NodeId\<close>, \<^verbatim>\<open>NodeData\<close>, \<^verbatim>\<open>Message\<close> and \<^verbatim>\<open>RootData\<close>. A \<^verbatim>\<open>NodeId\<close> is a
  string: \<^verbatim>\<open>fetchData\<close> writes \<^verbatim>\<open>currentNodeId\<close> to a file as UTF-8 text and the status
  line interpolates it.
\<close>

type_synonym NodeId = string
type_synonym RootId = string

datatype Role = User | Assistant

record Message =
  role :: Role
  content :: string
  timestamp :: nat

text \<open>
  \<^verbatim>\<open>metadata.tags\<close> is read with optional chaining (\<^verbatim>\<open>tags?.includes\<close>, \<^verbatim>\<open>tags?.filter\<close>),
  so it is an array of strings or absent (\<open>None\<close>). Every other field of the metadata
  object is carried along by the spread \<^verbatim>\<open>...node.metadata\<close>; the field \<open>rest\<close> stands
  for all of them together.
\<close>

record 'x NodeMetadata =
  tags :: "string list option"
  rest :: 'x

text \<open>The field \<^verbatim>\<open>id\<close> of a node is called \<open>node_id\<close> here (\<open>id\<close> is HOL's identity).\<close>

record 'x NodeData =
  node_id :: NodeId
  parent_id :: "NodeId option"
  message :: Message
  child_ids :: "NodeId list"
  metadata :: "'x NodeMetadata"

section \<open>Child sorting in the CLI\<close>

text \<open>
  \<^verbatim>\<open>child.metadata.tags?.includes(UNREAD_TAG)\<close>: with \<^verbatim>\<open>tags\<close> absent the optional chain
  yields \<^verbatim>\<open>undefined\<close>, which the \<^verbatim>\<open>if\<close> takes as false.
\<close>

definition tags_includes :: "string \<Rightarrow> 'x NodeData \<Rightarrow> bool" where
  "tags_includes t child =
     (case tags (metadata child) of None \<Rightarrow> False | Some ts \<Rightarrow> t \<in> set ts)"

text \<open>
  The body of \<^verbatim>\<open>children.forEach\<close> in \<^verbatim>\<open>sortedChildren\<close>: the two arrays \<^verbatim>\<open>unread\<close> and
  \<^verbatim>\<open>read\<close> are the state, \<^verbatim>\<open>push\<close> appends at the end.
\<close>

fun forEach_child ::
  "string \<Rightarrow> 'x NodeData list \<Rightarrow> 'x NodeData list \<times> 'x NodeData list
     \<Rightarrow> 'x NodeData list \<times> 'x NodeData list" where
  "forEach_child t [] (unread, read) = (unread, read)"
| "forEach_child t (child # children) (unread, read) =
     (if tags_includes t child
      then forEach_child t children (unread @ [child], read)
      else forEach_child t children (unread, read @ [child]))"

text \<open>
  \<^verbatim>\<open>sortedChildren\<close> (App.tsx, lines 234 to 247). The constant \<^verbatim>\<open>UNREAD_TAG\<close> is imported
  from \<^verbatim>\<open>commands.ts\<close>; its value is left open: it is the first parameter. The
  guard \<^verbatim>\<open>if (!children) return []\<close> never fires for an array (every array is truthy,
  the empty one too), and \<^verbatim>\<open>children\<close> is always an array by its type.
\<close>

definition sortedChildren :: "string \<Rightarrow> 'x NodeData list \<Rightarrow> 'x NodeData list" where
  "sortedChildren UNREAD_TAG children =
     (case forEach_child UNREAD_TAG children ([], []) of (unread, read) \<Rightarrow> unread @ read)"

section \<open>Clearing the unread tag on navigation\<close>

text \<open>
  The calls \<^verbatim>\<open>fetchData\<close> makes on the forest that change it. The only one is
  \<^verbatim>\<open>updateNodeMetadata(id, metadata)\<close>.
\<close>

datatype 'x ForestCall = UpdateNodeMetadata NodeId "'x NodeMetadata"

text \<open>
  JavaScript's truthiness of a value of type \<^verbatim>\<open>NodeId | null | undefined\<close>: \<^verbatim>\<open>null\<close> and
  \<^verbatim>\<open>undefined\<close> are falsy, and so is the empty string.
\<close>

definition truthy :: "NodeId option \<Rightarrow> bool" where
  "truthy v = (case v of None \<Rightarrow> False | Some s \<Rightarrow> s \<noteq> [])"

text \<open>
  \<^verbatim>\<open>node.metadata.tags?.filter(tag => tag !== UNREAD_TAG)\<close>: absent tags stay absent.
\<close>

definition filter_tags :: "string \<Rightarrow> string list option \<Rightarrow> string list option" where
  "filter_tags UNREAD_TAG ts = map_option (filter (\<lambda>tag. tag \<noteq> UNREAD_TAG)) ts"

text \<open>
  \<^verbatim>\<open>fetchData\<close> (App.tsx), lines 112 to 118, as a function of \<^verbatim>\<open>node\<close>, the result of
  \<^verbatim>\<open>getNode(currentNodeId)\<close> bound on line 106 (\<open>None\<close> when the node is absent). The result
  is the list of mutating calls made on the forest. The statements before it only read
  the forest and write the CLI's own \<^verbatim>\<open>current-node-id\<close> file; when one of them throws,
  control passes to the \<^verbatim>\<open>catch\<close> block and these lines are not reached.
\<close>

definition fetchData_clearUnread :: "string \<Rightarrow> 'x NodeData option \<Rightarrow> 'x ForestCall list" where
  "fetchData_clearUnread UNREAD_TAG node =
     (case node of
        None \<Rightarrow> []
      | Some n \<Rightarrow>
          if truthy (parent_id n)
          then [UpdateNodeMetadata (node_id n)
                  ((metadata n)\<lparr>tags := filter_tags UNREAD_TAG (tags (metadata n))\<rparr>)]
          else [])"

section \<open>The forest\<close>

text \<open>
  The CLI calls the forest through \<^verbatim>\<open>engine.getForest()\<close>. The forest and its store
  are defined here from the specification, sections 3, 4.1, 4.2 and 7.
\<close>

datatype Error = NotFoundError | InvalidRangeError | IOError | BusyError | ValidationError

text \<open>
  Modelled from the spec: the store's state (the NodeStore implementation is missing).
  Section 6: one record per NodeData, keyed by NodeId. Root records play no part in the
  node operations below and are left out.
\<close>

record 'x Store =
  nodes :: "NodeId \<Rightarrow> 'x NodeData option"

definition empty_store :: "'x Store" where
  "empty_store = \<lparr>nodes = (\<lambda>_. None)\<rparr>"

text \<open>
  Modelled from the spec: \<^verbatim>\<open>NodeStore.getNode\<close> (missing). Section 4.1: point lookup, no
  side effects.
\<close>

definition getNode :: "'x Store \<Rightarrow> NodeId \<Rightarrow> 'x NodeData option" where
  "getNode s i = nodes s i"

text \<open>
  Modelled from the spec: \<^verbatim>\<open>NodeStore.createNode\<close> (missing). Section 4.1: allocates a
  fresh NodeId, writes the new node record and, if \<^verbatim>\<open>parentId\<close> is not null, appends the
  new id to the parent's \<^verbatim>\<open>child_ids\<close>, the two writes as one unit; fails with
  \<^verbatim>\<open>NotFoundError\<close> if \<^verbatim>\<open>parentId\<close> is not null and unknown. The specification does not
  say how ids are allocated nor what metadata a new node starts with: the allocated id
  \<open>new_id\<close> and the initial metadata \<open>md\<close> are parameters, and the allocator's contract,
  that \<open>new_id\<close> is not a key of the store, is a premise wherever it is needed.
\<close>

definition createNode ::
  "NodeId \<Rightarrow> 'x NodeMetadata \<Rightarrow> NodeId option \<Rightarrow> Message \<Rightarrow> 'x Store
     \<Rightarrow> Error + ('x NodeData \<times> 'x Store)" where
  "createNode new_id md parentId msg s =
     (let n = \<lparr>node_id = new_id, parent_id = parentId, message = msg,
                child_ids = [], metadata = md\<rparr>
      in case parentId of
           None \<Rightarrow> Inr (n, s\<lparr>nodes := (nodes s)(new_id \<mapsto> n)\<rparr>)
         | Some p \<Rightarrow>
             (case nodes s p of
                None \<Rightarrow> Inl NotFoundError
              | Some pn \<Rightarrow>
                  Inr (n, s\<lparr>nodes := (nodes s)
                             (new_id \<mapsto> n,
                              p \<mapsto> pn\<lparr>child_ids := child_ids pn @ [new_id]\<rparr>)\<rparr>)))"

text \<open>
  Modelled from the spec: \<^verbatim>\<open>Forest.createMessageNode\<close> (missing). Section 4.2: a thin
  wrapper over \<^verbatim>\<open>NodeStore.createNode\<close>.
\<close>

definition createMessageNode ::
  "NodeId \<Rightarrow> 'x NodeMetadata \<Rightarrow> NodeId option \<Rightarrow> Message \<Rightarrow> 'x Store
     \<Rightarrow> Error + ('x NodeData \<times> 'x Store)" where
  "createMessageNode new_id md parentId msg s = createNode new_id md parentId msg s"

text \<open>
  Modelled from the spec: \<^verbatim>\<open>getChildren\<close> (missing). Section 4.1: the children in
  creation order, which is the order of \<^verbatim>\<open>child_ids\<close>; empty if there are none or the id
  is unknown. A listed id with no record contributes nothing.
\<close>

definition getChildren :: "'x Store \<Rightarrow> NodeId \<Rightarrow> 'x NodeData list" where
  "getChildren s i =
     (case nodes s i of
        None \<Rightarrow> []
      | Some n \<Rightarrow> List.map_filter (nodes s) (child_ids n))"

text \<open>
  Modelled from the spec: \<^verbatim>\<open>updateNodeMetadata\<close> (missing). Section 4.1: replaces the
  node's metadata with the caller's value; fails with \<^verbatim>\<open>NotFoundError\<close> if the id is
  unknown.
\<close>

definition updateNodeMetadata ::
  "NodeId \<Rightarrow> 'x NodeMetadata \<Rightarrow> 'x Store \<Rightarrow> Error + ('x NodeData \<times> 'x Store)" where
  "updateNodeMetadata i md s =
     (case nodes s i of
        None \<Rightarrow> Inl NotFoundError
      | Some n \<Rightarrow>
          Inr (n\<lparr>metadata := md\<rparr>, s\<lparr>nodes := (nodes s)(i \<mapsto> n\<lparr>metadata := md\<rparr>)\<rparr>))"

text \<open>
  The stores the operations can produce: from the empty store, by successful node
  creations under the allocator's contract and successful metadata updates (section 3:
  nodes are never deleted, and these are the only mutators of node records).
\<close>

inductive reachable :: "'x Store \<Rightarrow> bool" where
  reachable_empty: "reachable empty_store"
| reachable_create:
    "reachable s \<Longrightarrow> nodes s new_id = None \<Longrightarrow>
     createNode new_id md parentId msg s = Inr (n, s') \<Longrightarrow> reachable s'"
| reachable_update:
    "reachable s \<Longrightarrow> updateNodeMetadata i md s = Inr (n, s') \<Longrightarrow> reachable s'"

text \<open>
  The depth of a node (section 8: a root-level node has depth 1): one more than the
  depth of its parent.
\<close>

inductive depth :: "'x Store \<Rightarrow> NodeId \<Rightarrow> nat \<Rightarrow> bool" where
  depth_root: "nodes s i = Some n \<Longrightarrow> parent_id n = None \<Longrightarrow> depth s i (Suc 0)"
| depth_child:
    "nodes s i = Some n \<Longrightarrow> parent_id n = Some p \<Longrightarrow> depth s p d \<Longrightarrow> depth s i (Suc d)"

text \<open>
  Modelled from the spec: following \<^verbatim>\<open>parent_id\<close> (section 3, invariant 3, and section 8).
  \<open>cur\<close> is the current position (\<open>None\<close> is null) and \<open>k\<close> the number of steps taken so
  far. In a store with a cycle of parents the walk never returns: the value is \<open>None\<close>.
  A position with no record ends the walk with \<^verbatim>\<open>NotFoundError\<close>.
\<close>

partial_function (option) follow_parents ::
  "'x Store \<Rightarrow> NodeId option \<Rightarrow> nat \<Rightarrow> (Error + nat) option" where
  "follow_parents s cur k =
     (case cur of
        None \<Rightarrow> Some (Inr k)
      | Some i \<Rightarrow>
          (case nodes s i of
             None \<Rightarrow> Some (Inl NotFoundError)
           | Some n \<Rightarrow> follow_parents s (parent_id n) (Suc k)))"

text \<open>
  \<open>on_chain s a x\<close>: the walk from \<open>x\<close> through \<^verbatim>\<open>parent_id\<close> reaches \<open>a\<close>: \<open>a\<close> is \<open>x\<close> itself
  or an ancestor of \<open>x\<close>.
\<close>

inductive on_chain :: "'x Store \<Rightarrow> NodeId \<Rightarrow> NodeId \<Rightarrow> bool" where
  on_chain_self: "on_chain s x x"
| on_chain_parent:
    "nodes s x = Some n \<Longrightarrow> parent_id n = Some p \<Longrightarrow> on_chain s a p \<Longrightarrow> on_chain s a x"




text \<open>
  The invariants of a store: a record's id is its key; every listed child has a record
  that names the lister as its parent; the parent of every node has a record that lists
  the node exactly once; every node has a depth.
\<close>

definition ids_ok :: "'x Store \<Rightarrow> bool" where
  "ids_ok s = (\<forall>i n. nodes s i = Some n \<longrightarrow> node_id n = i)"

definition children_ok :: "'x Store \<Rightarrow> bool" where
  "children_ok s =
     (\<forall>i n c. nodes s i = Some n \<and> c \<in> set (child_ids n) \<longrightarrow>
        (\<exists>cn. nodes s c = Some cn \<and> parent_id cn = Some i))"

definition parents_ok :: "'x Store \<Rightarrow> bool" where
  "parents_ok s =
     (\<forall>i n p. nodes s i = Some n \<and> parent_id n = Some p \<longrightarrow>
        (\<exists>pn. nodes s p = Some pn \<and> count_list (child_ids pn) i = 1))"

definition depths_ok :: "'x Store \<Rightarrow> bool" where
  "depths_ok s = (\<forall>i n. nodes s i = Some n \<longrightarrow> (\<exists>d. depth s i d))"

definition store_inv :: "'x Store \<Rightarrow> bool" where
  "store_inv s = (ids_ok s \<and> children_ok s \<and> parents_ok s \<and> depths_ok s)"


section \<open>Example nodes\<close>

definition mk_node :: "NodeId \<Rightarrow> NodeId option \<Rightarrow> string list option \<Rightarrow> nat NodeData" where
  "mk_node i p ts =
     \<lparr>node_id = i, parent_id = p,
      message = \<lparr>role = Assistant, content = ''hello'', timestamp = 0\<rparr>,
      child_ids = [], metadata = \<lparr>tags = ts, rest = 7\<rparr>\<rparr>"

definition r1 :: "nat NodeData" where "r1 = mk_node ''r1'' (Some ''p'') (Some [])"
definition u1 :: "nat NodeData" where "u1 = mk_node ''u1'' (Some ''p'') (Some [''unread''])"
definition r2 :: "nat NodeData" where "r2 = mk_node ''r2'' (Some ''p'') (Some [''seen''])"
definition u2 :: "nat NodeData" where "u2 = mk_node ''u2'' (Some ''p'') (Some [''x'', ''unread''])"
definition n0 :: "nat NodeData" where "n0 = mk_node ''n0'' (Some ''p'') None"
definition t0 :: "nat NodeData" where "t0 = mk_node ''t0'' None (Some [''unread''])"


text \<open>
  The scenario of section 8 of the specification: node \<open>N1\<close> (root level, user, "hi"),
  node \<open>N2\<close> (child of \<open>N1\<close>, assistant, "hello"), and a second child \<open>N3\<close> of \<open>N1\<close>.
\<close>

definition md0 :: "nat NodeMetadata" where "md0 = \<lparr>tags = Some [], rest = 0\<rparr>"
definition hi :: Message where "hi = \<lparr>role = User, content = ''hi'', timestamp = 1\<rparr>"
definition hello :: Message where "hello = \<lparr>role = Assistant, content = ''hello'', timestamp = 2\<rparr>"

definition N1 :: "nat NodeData" where
  "N1 = \<lparr>node_id = ''N1'', parent_id = None, message = hi, child_ids = [], metadata = md0\<rparr>"
definition N2 :: "nat NodeData" where
  "N2 = \<lparr>node_id = ''N2'', parent_id = Some ''N1'', message = hello, child_ids = [], metadata = md0\<rparr>"

definition store1 :: "nat Store" where
  "store1 = \<lparr>nodes = (\<lambda>_. None)(''N1'' \<mapsto> N1)\<rparr>"
definition store2 :: "nat Store" where
  "store2 = \<lparr>nodes = (\<lambda>_. None)(''N1'' \<mapsto> N1\<lparr>child_ids := [''N2'']\<rparr>, ''N2'' \<mapsto> N2)\<rparr>"


section \<open>Theorems about the CLI\<close>

lemmas example_nodes = mk_node_def r1_def u1_def r2_def u2_def n0_def t0_def

lemma forEach_child_filter:
  "forEach_child t cs (u, r) =
     (u @ filter (tags_includes t) cs, r @ filter (\<lambda>c. \<not> tags_includes t c) cs)"
  by (induction cs arbitrary: u r) simp_all

lemma sortedChildren_filter:
  "sortedChildren t cs =
     filter (tags_includes t) cs @ filter (\<lambda>c. \<not> tags_includes t c) cs"
  by (simp add: sortedChildren_def forEach_child_filter)


lemma nth_append_groups:
  assumes "\<forall>x\<in>set us. P x" and "\<forall>x\<in>set rs. \<not> P x" and "i < length (us @ rs)"
  shows "P ((us @ rs) ! i) \<longleftrightarrow> i < length us"
proof (cases "i < length us")
  case True
  then have "(us @ rs) ! i \<in> set us" by (simp add: nth_append)
  with assms(1) True show ?thesis by blast
next
  case False
  with assms(3) have "i - length us < length rs" by simp
  then have "rs ! (i - length us) \<in> set rs" by (rule nth_mem)
  with False have "(us @ rs) ! i \<in> set rs" by (simp add: nth_append)
  with assms(2) False show ?thesis by blast
qed

lemma sortedChildren_before:
  assumes "i < length (sortedChildren t cs)" and "j < length (sortedChildren t cs)"
    and "tags_includes t (sortedChildren t cs ! i)"
    and "\<not> tags_includes t (sortedChildren t cs ! j)"
  shows "i < j"
proof -
  let ?us = "filter (tags_includes t) cs"
  let ?rs = "filter (\<lambda>c. \<not> tags_includes t c) cs"
  have res: "sortedChildren t cs = ?us @ ?rs"
    by (rule sortedChildren_filter)
  have us: "\<forall>x\<in>set ?us. tags_includes t x" and rs: "\<forall>x\<in>set ?rs. \<not> tags_includes t x"
    by simp_all
  from assms(1,3) have "i < length ?us"
    unfolding res using nth_append_groups [OF us rs] by blast
  moreover from assms(2,4) have "\<not> j < length ?us"
    unfolding res using nth_append_groups [OF us rs] by blast
  ultimately show ?thesis by simp
qed


lemma forEach_child_fst: "fst (forEach_child t cs ([], [])) = filter (tags_includes t) cs"
  by (simp add: forEach_child_filter)

lemma forEach_child_snd:
  "snd (forEach_child t cs ([], [])) = filter (\<lambda>c. \<not> tags_includes t c) cs"
  by (simp add: forEach_child_filter)

lemma absent_tags_not_included: "tags (metadata c) = None \<Longrightarrow> \<not> tags_includes t c"
  by (simp add: tags_includes_def)

text \<open>
  Claim C1. For every list of children and every tag, \<open>sortedChildren\<close> returns a
  permutation of the children: the children whose tags contain the tag, in their original
  order, followed by the children whose tags do not, in their original order. Whenever a
  child carrying the tag and a child not carrying it are both in the result, the first
  stands at a smaller index. On \<open>[r1, u1, r2, u2]\<close> with \<open>u1\<close> and \<open>u2\<close> unread the result
  is \<open>[u1, u2, r1, r2]\<close> (the witness).
\<close>

theorem sortedChildren_stable_partition:
  "mset (sortedChildren t cs) = mset cs
   \<and> sortedChildren t cs = filter (tags_includes t) cs @ filter (\<lambda>c. \<not> tags_includes t c) cs
   \<and> filter (tags_includes t) (sortedChildren t cs) = filter (tags_includes t) cs
   \<and> filter (\<lambda>c. \<not> tags_includes t c) (sortedChildren t cs) = filter (\<lambda>c. \<not> tags_includes t c) cs
   \<and> (\<forall>i j. i < length (sortedChildren t cs) \<and> j < length (sortedChildren t cs)
          \<and> tags_includes t (sortedChildren t cs ! i)
          \<and> \<not> tags_includes t (sortedChildren t cs ! j) \<longrightarrow> i < j)"
proof (intro conjI allI impI)
  show "mset (sortedChildren t cs) = mset cs"
    by (simp add: sortedChildren_filter)
  show "sortedChildren t cs = filter (tags_includes t) cs @ filter (\<lambda>c. \<not> tags_includes t c) cs"
    by (rule sortedChildren_filter)
  show "filter (tags_includes t) (sortedChildren t cs) = filter (tags_includes t) cs"
    by (simp add: sortedChildren_filter)
  show "filter (\<lambda>c. \<not> tags_includes t c) (sortedChildren t cs) = filter (\<lambda>c. \<not> tags_includes t c) cs"
    by (simp add: sortedChildren_filter)
next
  fix i j
  assume "i < length (sortedChildren t cs) \<and> j < length (sortedChildren t cs)
          \<and> tags_includes t (sortedChildren t cs ! i)
          \<and> \<not> tags_includes t (sortedChildren t cs ! j)"
  then show "i < j" using sortedChildren_before by blast
qed

theorem sortedChildren_stable_partition_witness:
  "sortedChildren ''unread'' [r1, u1, r2, u2] = [u1, u2, r1, r2]
   \<and> mset (sortedChildren ''unread'' [r1, u1, r2, u2]) = mset [r1, u1, r2, u2]
   \<and> (1::nat) < length (sortedChildren ''unread'' [r1, u1, r2, u2])
   \<and> (2::nat) < length (sortedChildren ''unread'' [r1, u1, r2, u2])
   \<and> tags_includes ''unread'' (sortedChildren ''unread'' [r1, u1, r2, u2] ! 1)
   \<and> \<not> tags_includes ''unread'' (sortedChildren ''unread'' [r1, u1, r2, u2] ! 2)"
  using sortedChildren_stable_partition [of "''unread''" "[r1, u1, r2, u2]"]
  by (simp add: tags_includes_def example_nodes)

lemma tags_includes_case:
  "tags_includes t = (\<lambda>c. case tags (metadata c) of None \<Rightarrow> False | Some ts \<Rightarrow> t \<in> set ts)"
  by (rule ext) (simp add: tags_includes_def)

lemma not_tags_includes_case:
  "(\<lambda>c. \<not> tags_includes t c)
     = (\<lambda>c. case tags (metadata c) of None \<Rightarrow> True | Some ts \<Rightarrow> t \<notin> set ts)"
  by (rule ext) (simp add: tags_includes_def split: option.splits)

lemma absent_tags_after_tagged:
  assumes "i < length (sortedChildren t cs)" and "j < length (sortedChildren t cs)"
    and "tags (metadata (sortedChildren t cs ! i)) = None"
    and "tags (metadata (sortedChildren t cs ! j)) = Some ts" and "t \<in> set ts"
  shows "j < i"
proof -
  from assms(3) have "\<not> tags_includes t (sortedChildren t cs ! i)"
    by (rule absent_tags_not_included)
  moreover from assms(4,5) have "tags_includes t (sortedChildren t cs ! j)"
    by (simp add: tags_includes_def)
  ultimately show ?thesis using sortedChildren_before [OF assms(2) assms(1)] by blast
qed

text \<open>
  Claim C10. The partition is defined on children without a \<^verbatim>\<open>tags\<close> field. The result
  is the unread group followed by the read group. The unread group is the subsequence of
  the children whose tags are present and contain the tag; the read group is the
  subsequence of all other children, those without tags among them, so a child without
  tags keeps its place relative to every other read child. No child without tags is in
  the unread group, every child without tags is in the read group, and in the result it
  stands after every child that carries the tag.
\<close>

theorem sortedChildren_absent_tags:
  "sortedChildren t cs = fst (forEach_child t cs ([], [])) @ snd (forEach_child t cs ([], []))
   \<and> (\<forall>c\<in>set (fst (forEach_child t cs ([], []))). tags (metadata c) \<noteq> None)
   \<and> filter (\<lambda>c. tags (metadata c) = None) (snd (forEach_child t cs ([], [])))
       = filter (\<lambda>c. tags (metadata c) = None) cs
   \<and> filter (\<lambda>c. tags (metadata c) = None) (sortedChildren t cs)
       = filter (\<lambda>c. tags (metadata c) = None) cs
   \<and> fst (forEach_child t cs ([], []))
       = filter (\<lambda>c. case tags (metadata c) of None \<Rightarrow> False | Some ts \<Rightarrow> t \<in> set ts) cs
   \<and> snd (forEach_child t cs ([], []))
       = filter (\<lambda>c. case tags (metadata c) of None \<Rightarrow> True | Some ts \<Rightarrow> t \<notin> set ts) cs
   \<and> (\<forall>c\<in>set cs. tags (metadata c) = None \<longrightarrow> c \<in> set (snd (forEach_child t cs ([], []))))
   \<and> (\<forall>i j ts. i < length (sortedChildren t cs) \<and> j < length (sortedChildren t cs)
          \<and> tags (metadata (sortedChildren t cs ! i)) = None
          \<and> tags (metadata (sortedChildren t cs ! j)) = Some ts \<and> t \<in> set ts \<longrightarrow> j < i)"
proof (intro conjI)
  show "sortedChildren t cs = fst (forEach_child t cs ([], [])) @ snd (forEach_child t cs ([], []))"
    by (simp add: sortedChildren_def split: prod.splits)
  show "\<forall>c\<in>set (fst (forEach_child t cs ([], []))). tags (metadata c) \<noteq> None"
    unfolding forEach_child_fst using absent_tags_not_included by auto
  have keep: "filter (\<lambda>c. tags (metadata c) = None) (filter (\<lambda>c. \<not> tags_includes t c) cs)
      = filter (\<lambda>c. tags (metadata c) = None) cs"
    unfolding filter_filter
    by (rule filter_cong) (auto simp: absent_tags_not_included)
  have drop: "filter (\<lambda>c. tags (metadata c) = None) (filter (tags_includes t) cs) = []"
    unfolding filter_filter using absent_tags_not_included
    by (auto simp: filter_empty_conv)
  show "filter (\<lambda>c. tags (metadata c) = None) (snd (forEach_child t cs ([], [])))
       = filter (\<lambda>c. tags (metadata c) = None) cs"
    unfolding forEach_child_snd by (rule keep)
  show "filter (\<lambda>c. tags (metadata c) = None) (sortedChildren t cs)
       = filter (\<lambda>c. tags (metadata c) = None) cs"
    by (simp only: sortedChildren_filter filter_append keep drop append_Nil)
  show "fst (forEach_child t cs ([], []))
       = filter (\<lambda>c. case tags (metadata c) of None \<Rightarrow> False | Some ts \<Rightarrow> t \<in> set ts) cs"
    unfolding forEach_child_fst by (simp only: tags_includes_case)
  show "snd (forEach_child t cs ([], []))
       = filter (\<lambda>c. case tags (metadata c) of None \<Rightarrow> True | Some ts \<Rightarrow> t \<notin> set ts) cs"
    unfolding forEach_child_snd by (simp only: not_tags_includes_case)
  show "\<forall>c\<in>set cs. tags (metadata c) = None \<longrightarrow> c \<in> set (snd (forEach_child t cs ([], [])))"
    unfolding forEach_child_snd using absent_tags_not_included by auto
  show "\<forall>i j ts. i < length (sortedChildren t cs) \<and> j < length (sortedChildren t cs)
          \<and> tags (metadata (sortedChildren t cs ! i)) = None
          \<and> tags (metadata (sortedChildren t cs ! j)) = Some ts \<and> t \<in> set ts \<longrightarrow> j < i"
    using absent_tags_after_tagged by blast
qed

theorem sortedChildren_absent_tags_witness:
  "sortedChildren ''unread'' [r1, n0, u1, r2] = [u1, r1, n0, r2]
   \<and> fst (forEach_child ''unread'' [r1, n0, u1, r2] ([], [])) = [u1]
   \<and> snd (forEach_child ''unread'' [r1, n0, u1, r2] ([], [])) = [r1, n0, r2]
   \<and> tags (metadata n0) = None
   \<and> n0 \<in> set (snd (forEach_child ''unread'' [r1, n0, u1, r2] ([], [])))
   \<and> filter (\<lambda>c. tags (metadata c) = None) (sortedChildren ''unread'' [r1, n0, u1, r2]) = [n0]
   \<and> sortedChildren ''unread'' [r1, n0] = [r1, n0]
   \<and> sortedChildren ''unread'' [n0, u1, r1] = [u1, n0, r1]"
proof -
  have res: "sortedChildren ''unread'' [r1, n0, u1, r2] = [u1, r1, n0, r2]"
    and two: "sortedChildren ''unread'' [r1, n0] = [r1, n0]"
    and three: "sortedChildren ''unread'' [n0, u1, r1] = [u1, n0, r1]"
    by (simp_all add: sortedChildren_def tags_includes_def example_nodes)
  have absent: "tags (metadata n0) = None" by (simp add: example_nodes)
  have groups: "forEach_child ''unread'' [r1, n0, u1, r2] ([], []) = ([u1], [r1, n0, r2])"
    by (simp add: tags_includes_def example_nodes)
  note thm1 = sortedChildren_absent_tags [of "''unread''" "[r1, n0, u1, r2]"]
  from thm1 absent have "n0 \<in> set (snd (forEach_child ''unread'' [r1, n0, u1, r2] ([], [])))"
    by simp
  moreover from thm1
  have "filter (\<lambda>c. tags (metadata c) = None) (sortedChildren ''unread'' [r1, n0, u1, r2])
      = filter (\<lambda>c. tags (metadata c) = None) [r1, n0, u1, r2]"
    by blast
  then have "filter (\<lambda>c. tags (metadata c) = None) (sortedChildren ''unread'' [r1, n0, u1, r2])
      = [n0]"
    by (simp add: example_nodes)
  ultimately show ?thesis using res two three absent groups by simp
qed

text \<open>
  Claim C7. A \<^verbatim>\<open>NodeId\<close> is a non-empty string: the CLI itself takes a falsy id for an
  absent one, and in a store with no node under the empty id no stored node has the empty
  string as its parent (\<open>stored_parent_nonempty\<close>). So a node has a parent when its
  \<^verbatim>\<open>parent_id\<close> is a non-empty string, and the guard \<^verbatim>\<open>if (node?.parent_id)\<close> tests for
  exactly that. Navigating to such a node makes exactly one call, \<^verbatim>\<open>updateNodeMetadata\<close> on
  the node's own id, with the node's metadata in which only \<open>tags\<close> may differ: absent
  tags stay absent, and present tags become the same tags without the unread tag.
  Navigating to a root-level node (\<^verbatim>\<open>parent_id\<close> null) makes no call, so its unread tag
  stays.
\<close>

theorem fetchData_clearUnread_call:
  "(\<forall>p. parent_id n = Some p \<and> p \<noteq> [] \<longrightarrow>
      (\<exists>m'. fetchData_clearUnread U (Some n) = [UpdateNodeMetadata (node_id n) m']
         \<and> m' = (metadata n)\<lparr>tags := tags m'\<rparr>
         \<and> (tags (metadata n) = None \<longrightarrow> tags m' = None)
         \<and> (\<forall>ts. tags (metadata n) = Some ts \<longrightarrow>
               (\<exists>ts'. tags m' = Some ts' \<and> set ts' = set ts - {U}))))
   \<and> (parent_id n = None \<longrightarrow> fetchData_clearUnread U (Some n) = [])"
  by (auto simp: fetchData_clearUnread_def truthy_def filter_tags_def)

theorem fetchData_clearUnread_call_witness:
  "parent_id u2 = Some ''p'' \<and> ''p'' \<noteq> []
   \<and> fetchData_clearUnread ''unread'' (Some u2)
       = [UpdateNodeMetadata ''u2'' \<lparr>tags = Some [''x''], rest = 7\<rparr>]
   \<and> parent_id t0 = None \<and> tags (metadata t0) = Some [''unread'']
   \<and> fetchData_clearUnread ''unread'' (Some t0) = []"
  using fetchData_clearUnread_call [of u2 "''unread''"]
    fetchData_clearUnread_call [of t0 "''unread''"]
  by (simp add: example_nodes fetchData_clearUnread_def truthy_def filter_tags_def)

text \<open>
  Claim C9. Whatever metadata \<^verbatim>\<open>fetchData\<close> passes to \<^verbatim>\<open>updateNodeMetadata\<close>, it is passed
  for the node navigated to, it equals that node's metadata except for \<open>tags\<close> (every
  other field is unchanged), and its tags are the node's tags other than the unread tag,
  in their original relative order; absent tags stay absent.
\<close>

theorem fetchData_clearUnread_frame:
  "UpdateNodeMetadata i m' \<in> set (fetchData_clearUnread U node) \<Longrightarrow>
     (\<exists>n. node = Some n \<and> i = node_id n
        \<and> rest m' = rest (metadata n)
        \<and> m' = (metadata n)\<lparr>tags := tags m'\<rparr>
        \<and> (tags (metadata n) = None \<longrightarrow> tags m' = None)
        \<and> (\<forall>ts. tags (metadata n) = Some ts \<longrightarrow>
              (\<exists>ts'. tags m' = Some ts' \<and> U \<notin> set ts'
                 \<and> filter (\<lambda>t. t \<noteq> U) ts' = filter (\<lambda>t. t \<noteq> U) ts)))"
  by (auto simp: fetchData_clearUnread_def filter_tags_def split: option.splits if_splits)

theorem fetchData_clearUnread_frame_witness:
  "UpdateNodeMetadata ''u2'' \<lparr>tags = Some [''x''], rest = 7\<rparr>
      \<in> set (fetchData_clearUnread ''unread'' (Some u2))
   \<and> rest (metadata u2) = 7 \<and> tags (metadata u2) = Some [''x'', ''unread'']
   \<and> filter (\<lambda>t. t \<noteq> ''unread'') [''x''] = filter (\<lambda>t. t \<noteq> ''unread'') [''x'', ''unread'']"
proof -
  have call: "UpdateNodeMetadata ''u2'' \<lparr>tags = Some [''x''], rest = (7::nat)\<rparr>
      \<in> set (fetchData_clearUnread ''unread'' (Some u2))"
    by (simp add: example_nodes fetchData_clearUnread_def truthy_def filter_tags_def)
  from fetchData_clearUnread_frame [OF call] call show ?thesis
    by (simp add: example_nodes)
qed


section \<open>Invariants of the forest\<close>

lemma ids_okD: "ids_ok s \<Longrightarrow> nodes s i = Some n \<Longrightarrow> node_id n = i"
  unfolding ids_ok_def by blast

lemma children_okD:
  "children_ok s \<Longrightarrow> nodes s i = Some n \<Longrightarrow> c \<in> set (child_ids n) \<Longrightarrow>
     \<exists>cn. nodes s c = Some cn \<and> parent_id cn = Some i"
  unfolding children_ok_def by blast

lemma parents_okD:
  "parents_ok s \<Longrightarrow> nodes s i = Some n \<Longrightarrow> parent_id n = Some p \<Longrightarrow>
     \<exists>pn. nodes s p = Some pn \<and> count_list (child_ids pn) i = 1"
  unfolding parents_ok_def by blast

lemma depths_okD: "depths_ok s \<Longrightarrow> nodes s i = Some n \<Longrightarrow> \<exists>d. depth s i d"
  unfolding depths_ok_def by blast

lemma createNode_new:
  assumes "createNode i md par m s = Inr (n, s')"
  shows "node_id n = i" and "parent_id n = par" and "message n = m" and "child_ids n = []"
    and "metadata n = md" and "nodes s i = None \<Longrightarrow> nodes s' i = Some n"
  using assms
  by (auto simp: createNode_def Let_def split: option.splits)

lemma createNode_parent:
  assumes "createNode i md (Some p) m s = Inr (n, s')"
  shows "\<exists>pn. nodes s p = Some pn"
  using assms by (auto simp: createNode_def Let_def split: option.splits)

lemma createNode_old:
  assumes "createNode i md par m s = Inr (n, s')" and "nodes s i = None"
    and "nodes s j = Some nj"
  shows "nodes s' j = Some (nj\<lparr>child_ids := child_ids nj @ (if par = Some j then [i] else [])\<rparr>)"
  using assms
  by (auto simp: createNode_def Let_def split: option.splits)

lemma createNode_dom:
  assumes "createNode i md par m s = Inr (n, s')" and "nodes s' j = Some nj'" and "j \<noteq> i"
  shows "\<exists>nj. nodes s j = Some nj"
  using assms
  by (auto simp: createNode_def Let_def split: option.splits if_splits)

lemma depth_mono:
  assumes "depth s j d"
    and "\<And>k nk. nodes s k = Some nk \<Longrightarrow> \<exists>nk'. nodes s' k = Some nk' \<and> parent_id nk' = parent_id nk"
  shows "depth s' j d"
  using assms
proof (induction rule: depth.induct)
  case (depth_root s0 i n)
  from depth_root(3) [OF depth_root(1)] depth_root(2)
  obtain n' where "nodes s' i = Some n'" "parent_id n' = None" by auto
  then show ?case by (rule depth.depth_root)
next
  case (depth_child s0 i n p d)
  from depth_child(5) [OF depth_child(1)] depth_child(2)
  obtain n' where n': "nodes s' i = Some n'" "parent_id n' = Some p" by auto
  have "depth s' p d" by (rule depth_child(4)) (rule depth_child(5))
  with n' show ?case by (rule depth.depth_child)
qed

lemma depth_functional: "depth s i d \<Longrightarrow> depth s i d' \<Longrightarrow> d = d'"
proof (induction arbitrary: d' rule: depth.induct)
  case (depth_root s i n)
  from depth_root(3) depth_root(1,2) show ?case
    by (cases rule: depth.cases) auto
next
  case (depth_child s i n p d)
  from depth_child(5) depth_child(1,2) depth_child(4) show ?case
    by (cases rule: depth.cases) auto
qed

lemma store_inv_empty: "store_inv empty_store"
  by (simp add: store_inv_def ids_ok_def children_ok_def parents_ok_def depths_ok_def empty_store_def)

lemma createNode_keeps_parent_id:
  assumes "createNode i md par m s = Inr (n, s')" and "nodes s i = None"
    and "nodes s k = Some nk"
  shows "\<exists>nk'. nodes s' k = Some nk' \<and> parent_id nk' = parent_id nk"
  using createNode_old [OF assms] by simp

lemma ids_ok_createNode:
  assumes c: "createNode i md par m s = Inr (n, s')" and fresh: "nodes s i = None"
    and inv: "ids_ok s"
  shows "ids_ok s'"
  unfolding ids_ok_def
proof (intro allI impI)
  fix j nj' assume j: "nodes s' j = Some nj'"
  show "node_id nj' = j"
  proof (cases "j = i")
    case True
    with j createNode_new [OF c] fresh show ?thesis by simp
  next
    case False
    from createNode_dom [OF c j False] obtain nj where nj: "nodes s j = Some nj" ..
    from createNode_old [OF c fresh nj] j inv nj show ?thesis
      by (auto simp: ids_ok_def)
  qed
qed

lemma children_ok_createNode:
  assumes c: "createNode i md par m s = Inr (n, s')" and fresh: "nodes s i = None"
    and inv: "children_ok s"
  shows "children_ok s'"
  unfolding children_ok_def
proof (intro allI impI, elim conjE)
  fix j nj' ch assume j: "nodes s' j = Some nj'" and ch: "ch \<in> set (child_ids nj')"
  show "\<exists>cn. nodes s' ch = Some cn \<and> parent_id cn = Some j"
  proof (cases "j = i")
    case True
    with j createNode_new [OF c] fresh ch show ?thesis by simp
  next
    case False
    from createNode_dom [OF c j False] obtain nj where nj: "nodes s j = Some nj" ..
    from createNode_old [OF c fresh nj] j
    have nj': "child_ids nj' = child_ids nj @ (if par = Some j then [i] else [])" by auto
    show ?thesis
    proof (cases "ch \<in> set (child_ids nj)")
      case True
      from children_okD [OF inv nj True]
      obtain cn where cn: "nodes s ch = Some cn" "parent_id cn = Some j" by blast
      from createNode_old [OF c fresh cn(1)] cn(2) show ?thesis by simp
    next
      case False
      with ch nj' have "par = Some j" "ch = i" by (auto split: if_splits)
      with createNode_new [OF c] fresh show ?thesis by simp
    qed
  qed
qed

lemma parents_ok_createNode:
  assumes c: "createNode i md par m s = Inr (n, s')" and fresh: "nodes s i = None"
    and inv: "parents_ok s" and ch: "children_ok s"
  shows "parents_ok s'"
  unfolding parents_ok_def
proof (intro allI impI, elim conjE)
  fix j nj' q assume j: "nodes s' j = Some nj'" and q: "parent_id nj' = Some q"
  show "\<exists>qn. nodes s' q = Some qn \<and> count_list (child_ids qn) j = 1"
  proof (cases "j = i")
    case True
    with j q createNode_new [OF c] fresh have par: "par = Some q" by simp
    from createNode_parent c par obtain qn where qn: "nodes s q = Some qn" by blast
    have "i \<notin> set (child_ids qn)"
    proof
      assume "i \<in> set (child_ids qn)"
      from children_okD [OF ch qn this] fresh show False by auto
    qed
    then have "count_list (child_ids qn) i = 0" by (simp add: count_list_0_iff)
    with createNode_old [OF c fresh qn] par True show ?thesis by simp
  next
    case False
    from createNode_dom [OF c j False] obtain nj where nj: "nodes s j = Some nj" ..
    from createNode_old [OF c fresh nj] j q have "parent_id nj = Some q" by auto
    from parents_okD [OF inv nj this]
    obtain qn where qn: "nodes s q = Some qn" "count_list (child_ids qn) j = 1" by blast
    from createNode_old [OF c fresh qn(1)] qn(2) False show ?thesis by simp
  qed
qed

lemma depths_ok_createNode:
  assumes c: "createNode i md par m s = Inr (n, s')" and fresh: "nodes s i = None"
    and inv: "depths_ok s"
  shows "depths_ok s'"
  unfolding depths_ok_def
proof (intro allI impI)
  fix j nj' assume j: "nodes s' j = Some nj'"
  have mono: "\<And>k d. depth s k d \<Longrightarrow> depth s' k d"
    by (erule depth_mono) (rule createNode_keeps_parent_id [OF c fresh])
  show "\<exists>d. depth s' j d"
  proof (cases "j = i")
    case True
    note new = createNode_new [OF c]
    show ?thesis
    proof (cases par)
      case None
      with new fresh True have "depth s' j (Suc 0)"
        by (intro depth_root [where n = n]) simp_all
      then show ?thesis ..
    next
      case (Some p)
      with createNode_parent c obtain pn where "nodes s p = Some pn" by blast
      from depths_okD [OF inv this] obtain d where "depth s p d" ..
      then have "depth s' p d" by (rule mono)
      with new fresh True Some have "depth s' j (Suc d)"
        by (intro depth_child [where n = n and p = p]) simp_all
      then show ?thesis ..
    qed
  next
    case False
    from createNode_dom [OF c j False] obtain nj where nj: "nodes s j = Some nj" ..
    from depths_okD [OF inv nj] obtain d where "depth s j d" ..
    then have "depth s' j d" by (rule mono)
    then show ?thesis ..
  qed
qed

lemma store_inv_createNode:
  assumes "createNode i md par m s = Inr (n, s')" and "nodes s i = None" and "store_inv s"
  shows "store_inv s'"
proof -
  from assms(3) have i1: "ids_ok s" and i2: "children_ok s" and i3: "parents_ok s"
    and i4: "depths_ok s" by (simp_all add: store_inv_def)
  note c = assms(1,2)
  from ids_ok_createNode [OF c i1] children_ok_createNode [OF c i2]
    parents_ok_createNode [OF c i3 i2] depths_ok_createNode [OF c i4]
  show ?thesis by (simp add: store_inv_def)
qed

lemma updateNodeMetadata_fwd:
  assumes "updateNodeMetadata i md s = Inr (n, s')" and "nodes s k = Some nk"
  shows "\<exists>nk'. nodes s' k = Some nk' \<and> parent_id nk' = parent_id nk
           \<and> child_ids nk' = child_ids nk \<and> node_id nk' = node_id nk"
  using assms by (auto simp: updateNodeMetadata_def split: option.splits)

lemma updateNodeMetadata_bwd:
  assumes "updateNodeMetadata i md s = Inr (n, s')" and "nodes s' k = Some nk'"
  shows "\<exists>nk. nodes s k = Some nk \<and> parent_id nk' = parent_id nk
           \<and> child_ids nk' = child_ids nk \<and> node_id nk' = node_id nk"
  using assms by (auto simp: updateNodeMetadata_def split: option.splits if_splits)

lemma store_inv_updateNodeMetadata:
  assumes u: "updateNodeMetadata i md s = Inr (n, s')" and inv: "store_inv s"
  shows "store_inv s'"
proof -
  note fwd = updateNodeMetadata_fwd [OF u] and bwd = updateNodeMetadata_bwd [OF u]
  from inv have i1: "ids_ok s" and i2: "children_ok s" and i3: "parents_ok s"
    and i4: "depths_ok s" by (simp_all add: store_inv_def)
  have "ids_ok s'"
    unfolding ids_ok_def
  proof (intro allI impI)
    fix j nj' assume "nodes s' j = Some nj'"
    from bwd [OF this] obtain nj where "nodes s j = Some nj" "node_id nj' = node_id nj" by blast
    with ids_okD [OF i1] show "node_id nj' = j" by simp
  qed
  moreover have "children_ok s'"
    unfolding children_ok_def
  proof (intro allI impI, elim conjE)
    fix j nj' ch assume j: "nodes s' j = Some nj'" and ch: "ch \<in> set (child_ids nj')"
    from bwd [OF j] ch obtain nj where nj: "nodes s j = Some nj" "ch \<in> set (child_ids nj)"
      by auto
    from children_okD [OF i2 nj] obtain cn where cn: "nodes s ch = Some cn" "parent_id cn = Some j"
      by blast
    from fwd [OF cn(1)] cn(2) show "\<exists>cn. nodes s' ch = Some cn \<and> parent_id cn = Some j" by auto
  qed
  moreover have "parents_ok s'"
    unfolding parents_ok_def
  proof (intro allI impI, elim conjE)
    fix j nj' q assume j: "nodes s' j = Some nj'" and q: "parent_id nj' = Some q"
    from bwd [OF j] q obtain nj where nj: "nodes s j = Some nj" "parent_id nj = Some q" by auto
    from parents_okD [OF i3 nj]
    obtain qn where qn: "nodes s q = Some qn" "count_list (child_ids qn) j = 1" by blast
    from fwd [OF qn(1)] qn(2)
    show "\<exists>qn. nodes s' q = Some qn \<and> count_list (child_ids qn) j = 1" by auto
  qed
  moreover have "depths_ok s'"
    unfolding depths_ok_def
  proof (intro allI impI)
    fix j nj' assume j: "nodes s' j = Some nj'"
    from bwd [OF j] obtain nj where nj: "nodes s j = Some nj" by auto
    from depths_okD [OF i4 nj] obtain d where "depth s j d" ..
    then have "depth s' j d"
    proof (rule depth_mono)
      fix k nk assume "nodes s k = Some nk"
      from fwd [OF this] show "\<exists>nk'. nodes s' k = Some nk' \<and> parent_id nk' = parent_id nk"
        by auto
    qed
    then show "\<exists>d. depth s' j d" ..
  qed
  ultimately show ?thesis by (simp add: store_inv_def)
qed

lemma stored_parent_nonempty:
  assumes "store_inv s" and "nodes s [] = None"
    and "nodes s i = Some n" and "parent_id n = Some p"
  shows "p \<noteq> []"
proof
  assume "p = []"
  from assms(1) have "parents_ok s" by (simp add: store_inv_def)
  from parents_okD [OF this assms(3,4)] obtain pn where "nodes s p = Some pn" by blast
  with \<open>p = []\<close> assms(2) show False by simp
qed

lemma reachable_store_inv: "reachable s \<Longrightarrow> store_inv s"
proof (induction rule: reachable.induct)
  case reachable_empty
  show ?case by (rule store_inv_empty)
next
  case (reachable_create s new_id md parentId msg n s')
  then show ?case using store_inv_createNode by blast
next
  case (reachable_update s i md n s')
  then show ?case using store_inv_updateNodeMetadata by blast
qed

section \<open>Theorems about the forest\<close>

lemma map_filter_ids:
  assumes "\<forall>c\<in>set cs. \<exists>cn. f c = Some cn \<and> node_id cn = c"
  shows "map node_id (List.map_filter f cs) = cs"
  using assms by (induction cs) (auto simp: map_filter_simps)

lemma getChildren_ids:
  assumes inv: "store_inv s" and p: "nodes s p = Some pn"
  shows "map node_id (getChildren s p) = child_ids pn"
proof -
  from inv have i1: "ids_ok s" and i2: "children_ok s" by (simp_all add: store_inv_def)
  have "\<forall>c\<in>set (child_ids pn). \<exists>cn. nodes s c = Some cn \<and> node_id cn = c"
  proof
    fix c assume "c \<in> set (child_ids pn)"
    from children_okD [OF i2 p this] obtain cn where cn: "nodes s c = Some cn" by blast
    with ids_okD [OF i1 cn] show "\<exists>cn. nodes s c = Some cn \<and> node_id cn = c" by simp
  qed
  then show ?thesis using p by (simp add: getChildren_def map_filter_ids)
qed

lemma createNode_succeeds:
  assumes "nodes s p = Some pn"
  shows "\<exists>n s'. createNode i md (Some p) m s = Inr (n, s')"
  using assms by (simp add: createNode_def Let_def)

text \<open>
  Claim C3. In every store the operations can produce, so after every successful
  mutation, each node with parent \<open>q\<close> is listed exactly once in the \<^verbatim>\<open>child_ids\<close> of \<open>q\<close>.
  For an existing parent \<open>p\<close> and a freshly allocated id, \<open>createMessageNode\<close> succeeds,
  and in the store it returns \<open>getNode\<close> of the new id has \<^verbatim>\<open>parent_id\<close> \<open>p\<close> and
  \<open>getChildren p\<close> contains the new id exactly once. A mutation is one step of the
  model, as section 4.1 prescribes, so a reader sees no state in between.
\<close>

theorem createMessageNode_parent_child:
  assumes "reachable s"
  shows "(\<forall>j nj q. nodes s j = Some nj \<and> parent_id nj = Some q \<longrightarrow>
            (\<exists>qn. nodes s q = Some qn \<and> count_list (child_ids qn) j = 1))
       \<and> (\<forall>i md p pn m. nodes s i = None \<and> nodes s p = Some pn \<longrightarrow>
            (\<exists>n s'. createMessageNode i md (Some p) m s = Inr (n, s') \<and> reachable s'
               \<and> map_option parent_id (getNode s' (node_id n)) = Some (Some p)
               \<and> count_list (map node_id (getChildren s' p)) (node_id n) = 1))"
proof (intro conjI allI impI)
  fix j nj q assume "nodes s j = Some nj \<and> parent_id nj = Some q"
  moreover from assms have "parents_ok s"
    using reachable_store_inv by (auto simp: store_inv_def)
  ultimately show "\<exists>qn. nodes s q = Some qn \<and> count_list (child_ids qn) j = 1"
    using parents_okD by blast
next
  fix i md p pn m assume "nodes s i = None \<and> nodes s p = Some pn"
  then have fresh: "nodes s i = None" and p: "nodes s p = Some pn" by simp_all
  from createNode_succeeds [OF p] obtain n s'
    where c: "createNode i md (Some p) m s = Inr (n, s')" by blast
  from assms fresh c have r': "reachable s'" by (rule reachable_create)
  then have inv': "store_inv s'" by (rule reachable_store_inv)
  note new = createNode_new [OF c]
  from new(6) [OF fresh] have n': "nodes s' i = Some n" .
  from inv' have "parents_ok s'" by (simp add: store_inv_def)
  from parents_okD [OF this n' new(2)] obtain pn'
    where pn': "nodes s' p = Some pn'" "count_list (child_ids pn') i = 1" by blast
  from getChildren_ids [OF inv' pn'(1)] pn'(2) new(1)
  have "count_list (map node_id (getChildren s' p)) (node_id n) = 1" by simp
  moreover from n' new(1,2) have "map_option parent_id (getNode s' (node_id n)) = Some (Some p)"
    by (simp add: getNode_def)
  ultimately show "\<exists>n s'. createMessageNode i md (Some p) m s = Inr (n, s') \<and> reachable s'
               \<and> map_option parent_id (getNode s' (node_id n)) = Some (Some p)
               \<and> count_list (map node_id (getChildren s' p)) (node_id n) = 1"
    using c r' unfolding createMessageNode_def by blast
qed

lemma follow_parents_depth_aux:
  "depth s i d \<Longrightarrow> follow_parents s (Some i) k = Some (Inr (k + d))"
proof (induction arbitrary: k rule: depth.induct)
  case (depth_root s i n)
  have "follow_parents s (Some i) k = follow_parents s None (Suc k)"
    using depth_root by (subst follow_parents.simps) simp
  also have "\<dots> = Some (Inr (Suc k))"
    by (subst follow_parents.simps) simp
  finally show ?case by simp
next
  case (depth_child s i n p d)
  have "follow_parents s (Some i) k = follow_parents s (Some p) (Suc k)"
    using depth_child(1,2) by (subst follow_parents.simps) simp
  also have "\<dots> = Some (Inr (Suc k + d))" by (rule depth_child.IH)
  finally show ?case by simp
qed

lemma depth_pos: "depth s i d \<Longrightarrow> 0 < d"
  by (induction rule: depth.induct) simp_all

lemma on_chain_depth:
  assumes "on_chain s a x" and "depth s x d"
  shows "\<exists>d'. depth s a d' \<and> d' \<le> d"
  using assms
proof (induction arbitrary: d rule: on_chain.induct)
  case (on_chain_self s x)
  then show ?case by blast
next
  case (on_chain_parent s x n p a)
  from on_chain_parent(5) on_chain_parent(1,2) obtain e where e: "depth s p e" "d = Suc e"
    by (cases rule: depth.cases) auto
  from on_chain_parent.IH [OF e(1)] e(2) show ?case by (metis le_Suc_eq)
qed

lemma no_cycle:
  assumes inv: "store_inv s" and n: "nodes s i = Some n" and p: "parent_id n = Some p"
  shows "\<not> on_chain s i p"
proof
  assume chain: "on_chain s i p"
  from inv have dk: "depths_ok s" and pk: "parents_ok s" by (simp_all add: store_inv_def)
  from parents_okD [OF pk n p] obtain pn where pn: "nodes s p = Some pn" by blast
  from depths_okD [OF dk pn] obtain e where e: "depth s p e" ..
  with n p have "depth s i (Suc e)" by (rule depth_child)
  moreover from on_chain_depth [OF chain e] obtain d' where "depth s i d'" "d' \<le> e" by blast
  ultimately show False using depth_functional by fastforce
qed

lemma reachable_finite: "reachable s \<Longrightarrow> finite (dom (nodes s))"
proof (induction rule: reachable.induct)
  case reachable_empty
  show ?case by (simp add: empty_store_def)
next
  case (reachable_create s new_id md parentId msg n s')
  have "dom (nodes s') \<subseteq> insert new_id (dom (nodes s))"
    using createNode_dom [OF reachable_create(3)] by (auto simp: dom_def)
  with reachable_create.IH show ?case by (meson finite_insert finite_subset)
next
  case (reachable_update s i md n s')
  have "dom (nodes s') \<subseteq> dom (nodes s)"
    using updateNodeMetadata_bwd [OF reachable_update(2)] by (auto simp: dom_def)
  with reachable_update.IH show ?case by (rule rev_finite_subset)
qed

text \<open>
  Claim C6. In every store the operations can produce, the set of nodes is finite, no
  node is on the parent chain of its own parent, and following \<^verbatim>\<open>parent_id\<close> from a stored
  node reaches null after exactly as many steps as the node's depth, which is at least 1.
\<close>

theorem follow_parents_reaches_null:
  assumes "reachable s" and "nodes s i = Some n"
  shows "finite (dom (nodes s))
       \<and> (\<forall>p. parent_id n = Some p \<longrightarrow> \<not> on_chain s i p)
       \<and> (\<exists>d. depth s i d \<and> 0 < d \<and> follow_parents s (Some i) 0 = Some (Inr d))"
proof -
  from assms(1) have inv: "store_inv s" by (rule reachable_store_inv)
  then have "depths_ok s" by (simp add: store_inv_def)
  from depths_okD [OF this assms(2)] obtain d where d: "depth s i d" ..
  from follow_parents_depth_aux [OF d, of 0] depth_pos [OF d] d
  have "\<exists>d. depth s i d \<and> 0 < d \<and> follow_parents s (Some i) 0 = Some (Inr d)" by auto
  moreover have "\<forall>p. parent_id n = Some p \<longrightarrow> \<not> on_chain s i p"
    using no_cycle [OF inv assms(2)] by blast
  ultimately show ?thesis using reachable_finite [OF assms(1)] by blast
qed









text \<open>
  Claim C8. When \<open>updateNodeMetadata i m\<close> succeeds, the stored metadata of \<open>i\<close> is \<open>m\<close>,
  and a second call with the same \<open>m\<close> returns the same node and leaves the store as the
  first call left it. When it fails, the id is unknown and there is no new store.
\<close>

theorem updateNodeMetadata_idempotent:
  "(case updateNodeMetadata i m s of
      Inl e \<Rightarrow> e = NotFoundError \<and> getNode s i = None
    | Inr (n1, s1) \<Rightarrow>
        map_option metadata (getNode s1 i) = Some m
        \<and> updateNodeMetadata i m s1 = Inr (n1, s1))"
  by (auto simp: updateNodeMetadata_def getNode_def split: option.splits)

section \<open>The forest on the example scenario\<close>

lemma create_N1: "createNode ''N1'' md0 None hi empty_store = Inr (N1, store1)"
  by (simp add: createNode_def Let_def empty_store_def store1_def N1_def)

lemma create_N2: "createNode ''N2'' md0 (Some ''N1'') hello store1 = Inr (N2, store2)"
  by (auto simp: createNode_def Let_def store1_def store2_def N1_def N2_def fun_eq_iff)


lemma reachable_store1: "reachable store1"
  by (rule reachable_create [OF reachable_empty _ create_N1]) (simp add: empty_store_def)

lemma reachable_store2: "reachable store2"
  by (rule reachable_create [OF reachable_store1 _ create_N2]) (simp add: store1_def)


theorem createMessageNode_parent_child_witness:
  "reachable store1 \<and> nodes store1 ''N2'' = None \<and> nodes store1 ''N1'' = Some N1
   \<and> createMessageNode ''N2'' md0 (Some ''N1'') hello store1 = Inr (N2, store2)
   \<and> map_option parent_id (getNode store2 ''N2'') = Some (Some ''N1'')
   \<and> map node_id (getChildren store2 ''N1'') = [''N2'']
   \<and> (\<exists>qn. nodes store2 ''N1'' = Some qn \<and> count_list (child_ids qn) ''N2'' = 1)
   \<and> (\<exists>n s'. createMessageNode ''N2'' md0 (Some ''N1'') hello store1 = Inr (n, s')
          \<and> count_list (map node_id (getChildren s' ''N1'')) (node_id n) = 1)"
proof -
  have a: "nodes store1 ''N2'' = None \<and> nodes store1 ''N1'' = Some N1"
    by (simp add: store1_def)
  have b: "nodes store2 ''N2'' = Some N2 \<and> parent_id N2 = Some ''N1''"
    by (simp add: store2_def N2_def)
  from createMessageNode_parent_child [OF reachable_store1] a
  have "\<exists>n s'. createMessageNode ''N2'' md0 (Some ''N1'') hello store1 = Inr (n, s')
          \<and> count_list (map node_id (getChildren s' ''N1'')) (node_id n) = 1"
    by blast
  moreover from createMessageNode_parent_child [OF reachable_store2] b
  have "\<exists>qn. nodes store2 ''N1'' = Some qn \<and> count_list (child_ids qn) ''N2'' = 1"
    by blast
  moreover have "map_option parent_id (getNode store2 ''N2'') = Some (Some ''N1'')"
    by (simp add: getNode_def store2_def N2_def)
  moreover have "map node_id (getChildren store2 ''N1'') = [''N2'']"
    by (simp add: getChildren_def store2_def N1_def N2_def map_filter_simps)
  ultimately show ?thesis
    using a reachable_store1 create_N2 by (simp add: createMessageNode_def)
qed

theorem follow_parents_reaches_null_witness:
  "reachable store2 \<and> nodes store2 ''N2'' = Some N2 \<and> parent_id N2 = Some ''N1''
   \<and> \<not> on_chain store2 ''N2'' ''N1''
   \<and> finite (dom (nodes store2))
   \<and> depth store2 ''N2'' 2
   \<and> follow_parents store2 (Some ''N2'') 0 = Some (Inr 2)"
proof -
  have n: "nodes store2 ''N2'' = Some N2" and p: "parent_id N2 = Some ''N1''"
    by (simp_all add: store2_def N2_def)
  have f: "follow_parents store2 (Some ''N2'') 0 = Some (Inr 2)"
    by (simp add: follow_parents.simps store2_def N1_def N2_def)
  from follow_parents_reaches_null [OF reachable_store2 n] p f
  have "\<not> on_chain store2 ''N2'' ''N1'' \<and> finite (dom (nodes store2)) \<and> depth store2 ''N2'' 2"
    by auto
  with n p f reachable_store2 show ?thesis by simp
qed



theorem updateNodeMetadata_idempotent_witness:
  "updateNodeMetadata ''N2'' \<lparr>tags = Some [''seen''], rest = 5\<rparr> store2
     = Inr (N2\<lparr>metadata := \<lparr>tags = Some [''seen''], rest = 5\<rparr>\<rparr>,
            store2\<lparr>nodes := (nodes store2)(''N2'' \<mapsto> N2\<lparr>metadata := \<lparr>tags = Some [''seen''], rest = 5\<rparr>\<rparr>)\<rparr>)
   \<and> updateNodeMetadata ''N2'' \<lparr>tags = Some [''seen''], rest = 5\<rparr>
        (store2\<lparr>nodes := (nodes store2)(''N2'' \<mapsto> N2\<lparr>metadata := \<lparr>tags = Some [''seen''], rest = 5\<rparr>\<rparr>)\<rparr>)
     = Inr (N2\<lparr>metadata := \<lparr>tags = Some [''seen''], rest = 5\<rparr>\<rparr>,
            store2\<lparr>nodes := (nodes store2)(''N2'' \<mapsto> N2\<lparr>metadata := \<lparr>tags = Some [''seen''], rest = 5\<rparr>\<rparr>)\<rparr>)"
proof -
  have first: "updateNodeMetadata ''N2'' \<lparr>tags = Some [''seen''], rest = 5\<rparr> store2
     = Inr (N2\<lparr>metadata := \<lparr>tags = Some [''seen''], rest = 5\<rparr>\<rparr>,
            store2\<lparr>nodes := (nodes store2)(''N2'' \<mapsto> N2\<lparr>metadata := \<lparr>tags = Some [''seen''], rest = 5\<rparr>\<rparr>)\<rparr>)"
    by (simp add: updateNodeMetadata_def store2_def)
  from updateNodeMetadata_idempotent [where i = "''N2''" and m = "\<lparr>tags = Some [''seen''], rest = 5\<rparr>"
      and s = store2] first
  show ?thesis by simp
qed

end
